theory Spec2Isabelle
  imports Main "HOL-Library.Word" "HOL-Library.Signed_Division"
begin

section \<open>Data model of \<^verbatim>\<open>ts_hashmap.c\<close>\<close>

text \<open>
  The C type \<^verbatim>\<open>int\<close> is taken as a 32-bit two's complement integer, so
  \<^verbatim>\<open>INT_MAX\<close> is \<open>2^31 - 1\<close> and \<^verbatim>\<open>unsigned int\<close> is the same 32 bits
  read without a sign.
\<close>

type_synonym c_int = "32 word"

definition INT_MAX :: c_int where
  "INT_MAX = 0x7FFFFFFF"

definition INT_MIN :: c_int where
  "INT_MIN = 0x80000000"

text \<open>
  Modelled from the spec: the header \<^verbatim>\<open>ts_hashmap.h\<close> with the declarations of
  \<^verbatim>\<open>ts_entry_t\<close> and \<^verbatim>\<open>ts_hashmap_t\<close> is missing. The spec's data model gives an
  entry an integer key, an integer value and a link to the next entry; the source reads
  and writes the fields \<^verbatim>\<open>key\<close>, \<^verbatim>\<open>value\<close> and \<^verbatim>\<open>next\<close>. A chain of entries linked
  through \<^verbatim>\<open>next\<close> and ended by \<^verbatim>\<open>NULL\<close> is a list of entries: every entry is owned by
  exactly one chain, so no aliasing is lost. The field \<^verbatim>\<open>value\<close> is called \<open>val\<close> here.
\<close>

record ts_entry =
  key :: c_int
  val :: c_int

text \<open>
  Modelled from the spec: the fields of \<^verbatim>\<open>ts_hashmap_t\<close> (missing header), as
  \<^verbatim>\<open>initmap\<close> sets them: the table of bucket heads, \<^verbatim>\<open>size\<close>, \<^verbatim>\<open>capacity\<close> and
  \<^verbatim>\<open>numOps\<close>, all three of type \<^verbatim>\<open>int\<close>. The field \<^verbatim>\<open>size\<close> is called \<open>size_hm\<close>
  here.
\<close>

record ts_hashmap =
  table :: "ts_entry list list"
  size_hm :: c_int
  capacity :: c_int
  numOps :: c_int

text \<open>
  Undefined behaviour of the C program is an error value of the model: an overflowing
  \<^verbatim>\<open>++\<close> or \<^verbatim>\<open>--\<close> on an \<^verbatim>\<open>int\<close>, a remainder by zero, and a read or write of
  \<^verbatim>\<open>table[index]\<close> outside the allocated table.
\<close>

datatype ub = SignedOverflow | DivByZero | OutOfBounds

definition incr :: "c_int \<Rightarrow> ub + c_int" where
  "incr x = (if x = INT_MAX then Inl SignedOverflow else Inr (x + 1))"

definition decr :: "c_int \<Rightarrow> ub + c_int" where
  "decr x = (if x = INT_MIN then Inl SignedOverflow else Inr (x - 1))"

text \<open>
  \<^verbatim>\<open>int index = key % map->capacity\<close> (in \<^verbatim>\<open>get\<close> and \<^verbatim>\<open>del\<close>): the remainder of C's
  division, which truncates towards zero and so takes the sign of the key.
\<close>

definition signed_index :: "c_int \<Rightarrow> c_int \<Rightarrow> ub + int" where
  "signed_index k c =
     (if c = 0 then Inl DivByZero
      else if k = INT_MIN \<and> c = - 1 then Inl SignedOverflow
      else Inr (sint k smod sint c))"

text \<open>
  \<^verbatim>\<open>unsigned int u_key = (unsigned int) key; int index = u_key % map->capacity\<close> (in
  \<^verbatim>\<open>put\<close>): the capacity is converted to unsigned too, the remainder is unsigned, and
  the result is read back as an \<^verbatim>\<open>int\<close>.
\<close>

definition unsigned_index :: "c_int \<Rightarrow> c_int \<Rightarrow> ub + int" where
  "unsigned_index k c =
     (if c = 0 then Inl DivByZero else Inr (sint (k mod c)))"

text \<open>\<^verbatim>\<open>map->table[index]\<close>: the table holds \<^verbatim>\<open>capacity\<close> bucket heads.\<close>

definition bucket_at :: "ts_entry list list \<Rightarrow> int \<Rightarrow> ub + ts_entry list" where
  "bucket_at t i =
     (if 0 \<le> i \<and> i < int (length t) then Inr (t ! nat i) else Inl OutOfBounds)"

section \<open>Operations\<close>

text \<open>
  Every operation holds the one global mutex from its first statement to its return, so
  calls never overlap and each is a function from the map before to the value returned
  and the map after. \<^verbatim>\<open>malloc\<close> is taken to succeed.
\<close>

text \<open>
  \<^verbatim>\<open>initmap\<close>: every bucket is empty. A capacity that is not positive allocates no
  usable table: every later access is out of bounds.
\<close>

definition initmap :: "c_int \<Rightarrow> ts_hashmap" where
  "initmap c =
     \<lparr>table = replicate (nat (sint c)) [], size_hm = 0, capacity = c, numOps = 0\<rparr>"

text \<open>The loop of \<^verbatim>\<open>get\<close>: the value of the first entry with the key, else \<^verbatim>\<open>INT_MAX\<close>.\<close>

fun get_loop :: "c_int \<Rightarrow> ts_entry list \<Rightarrow> c_int" where
  "get_loop k [] = INT_MAX"
| "get_loop k (e # es) = (if key e = k then val e else get_loop k es)"

definition get :: "ts_hashmap \<Rightarrow> c_int \<Rightarrow> ub + (c_int \<times> ts_hashmap)" where
  "get m k =
     (case incr (numOps m) of Inl u \<Rightarrow> Inl u | Inr n \<Rightarrow>
      (case signed_index k (capacity m) of Inl u \<Rightarrow> Inl u | Inr i \<Rightarrow>
       (case bucket_at (table m) i of Inl u \<Rightarrow> Inl u | Inr chain \<Rightarrow>
          Inr (get_loop k chain, m\<lparr>numOps := n\<rparr>))))"

text \<open>
  The loop of \<^verbatim>\<open>put\<close> on a chain that is not empty, \<open>e\<close> being \<^verbatim>\<open>entry\<close> and \<open>rest\<close>
  the chain behind \<^verbatim>\<open>entry->next\<close>. The loop runs while \<^verbatim>\<open>entry->next != NULL\<close> and
  compares keys only inside its body; when \<^verbatim>\<open>entry->next\<close> is \<^verbatim>\<open>NULL\<close> the new entry is
  linked behind \<^verbatim>\<open>entry\<close>. The result is the old value when an entry was overwritten,
  \<open>None\<close> when a new entry was appended, and the chain afterwards.
\<close>

fun put_loop :: "c_int \<Rightarrow> c_int \<Rightarrow> ts_entry \<Rightarrow> ts_entry list \<Rightarrow> c_int option \<times> ts_entry list" where
  "put_loop k v e [] = (None, [e, \<lparr>key = k, val = v\<rparr>])"
| "put_loop k v e (n # ns) =
     (if key e = k then (Some (val e), e\<lparr>val := v\<rparr> # n # ns)
      else (case put_loop k v n ns of (r, ch) \<Rightarrow> (r, e # ch)))"

definition put :: "ts_hashmap \<Rightarrow> c_int \<Rightarrow> c_int \<Rightarrow> ub + (c_int \<times> ts_hashmap)" where
  "put m k v =
     (case incr (numOps m) of Inl u \<Rightarrow> Inl u | Inr n \<Rightarrow>
      (case unsigned_index k (capacity m) of Inl u \<Rightarrow> Inl u | Inr i \<Rightarrow>
       (case bucket_at (table m) i of Inl u \<Rightarrow> Inl u | Inr chain \<Rightarrow>
        (case chain of
           [] \<Rightarrow>
             (case incr (size_hm m) of Inl u \<Rightarrow> Inl u | Inr s \<Rightarrow>
                Inr (INT_MAX,
                     m\<lparr>table := (table m)[nat i := [\<lparr>key = k, val = v\<rparr>]],
                       size_hm := s, numOps := n\<rparr>))
         | e # rest \<Rightarrow>
             (case put_loop k v e rest of
                (Some old, ch) \<Rightarrow>
                  Inr (old, m\<lparr>table := (table m)[nat i := ch], numOps := n\<rparr>)
              | (None, ch) \<Rightarrow>
                  (case incr (size_hm m) of Inl u \<Rightarrow> Inl u | Inr s \<Rightarrow>
                     Inr (INT_MAX,
                          m\<lparr>table := (table m)[nat i := ch],
                            size_hm := s, numOps := n\<rparr>)))))))"

text \<open>
  The loop of \<^verbatim>\<open>del\<close>: the first entry with the key is unlinked (from its predecessor,
  or from the bucket head) and its value returned; \<open>None\<close> when no entry has the key.
\<close>

fun del_loop :: "c_int \<Rightarrow> ts_entry list \<Rightarrow> (c_int \<times> ts_entry list) option" where
  "del_loop k [] = None"
| "del_loop k (e # es) =
     (if key e = k then Some (val e, es)
      else (case del_loop k es of None \<Rightarrow> None | Some (v, es') \<Rightarrow> Some (v, e # es')))"

definition del :: "ts_hashmap \<Rightarrow> c_int \<Rightarrow> ub + (c_int \<times> ts_hashmap)" where
  "del m k =
     (case incr (numOps m) of Inl u \<Rightarrow> Inl u | Inr n \<Rightarrow>
      (case signed_index k (capacity m) of Inl u \<Rightarrow> Inl u | Inr i \<Rightarrow>
       (case bucket_at (table m) i of Inl u \<Rightarrow> Inl u | Inr chain \<Rightarrow>
        (case del_loop k chain of
           None \<Rightarrow> Inr (INT_MAX, m\<lparr>numOps := n\<rparr>)
         | Some (v, ch) \<Rightarrow>
             (case decr (size_hm m) of Inl u \<Rightarrow> Inl u | Inr s \<Rightarrow>
                Inr (v, m\<lparr>table := (table m)[nat i := ch],
                          size_hm := s, numOps := n\<rparr>))))))"

section \<open>Sequences of calls\<close>

datatype call = Get c_int | Put c_int c_int | Del c_int

fun step :: "ts_hashmap \<Rightarrow> call \<Rightarrow> ub + (c_int \<times> ts_hashmap)" where
  "step m (Get k) = get m k"
| "step m (Put k v) = put m k v"
| "step m (Del k) = del m k"

text \<open>The calls in order, with the values they return; the first error ends the run.\<close>

fun run :: "ts_hashmap \<Rightarrow> call list \<Rightarrow> ub + (c_int list \<times> ts_hashmap)" where
  "run m [] = Inr ([], m)"
| "run m (c # cs) =
     (case step m c of Inl u \<Rightarrow> Inl u | Inr (r, m') \<Rightarrow>
      (case run m' cs of Inl u \<Rightarrow> Inl u | Inr (rs, m'') \<Rightarrow> Inr (r # rs, m'')))"

text \<open>At most one entry of each bucket chain has a given key.\<close>

definition unique_keys :: "ts_hashmap \<Rightarrow> bool" where
  "unique_keys m = list_all (\<lambda>chain. distinct (map key chain)) (table m)"

text \<open>
  A map as \<^verbatim>\<open>initmap\<close> with a positive capacity creates it and the calls keep it: the
  table has \<^verbatim>\<open>capacity\<close> buckets, and the size has moved at most as often as calls
  were counted.
\<close>

definition map_ok :: "ts_hashmap \<Rightarrow> bool" where
  "map_ok m =
     (0 < sint (capacity m) \<and> length (table m) = nat (sint (capacity m)) \<and>
      - sint (numOps m) \<le> sint (size_hm m) \<and> sint (size_hm m) \<le> sint (numOps m))"

text \<open>Calls whose bucket index stays inside the table: get and del need a key that is not negative.\<close>

fun call_in_bounds :: "call \<Rightarrow> bool" where
  "call_in_bounds (Get k) = (0 \<le> sint k)"
| "call_in_bounds (Put k v) = True"
| "call_in_bounds (Del k) = (0 \<le> sint k)"

section \<open>Facts about 32-bit integers\<close>

lemma sint_INT_MAX: "sint INT_MAX = 2147483647"
  by (simp add: INT_MAX_def)

lemma sint_INT_MIN: "sint INT_MIN = - 2147483648"
  by (simp add: INT_MIN_def)

lemma sint_bounds: "- 2147483648 \<le> sint (x::c_int) \<and> sint x \<le> 2147483647"
  using sint_ge [of x] sint_lt [of x] by simp

lemma sint_inj: "sint (x::c_int) = sint y \<Longrightarrow> x = y"
  by (rule signed_word_eqI)

lemma sint_incr:
  assumes "x \<noteq> INT_MAX"
  shows "sint (x + 1 :: c_int) = sint x + 1"
proof -
  have "sint x \<noteq> 2147483647"
    using assms sint_inj [of x INT_MAX] by (auto simp: sint_INT_MAX)
  with sint_bounds [of x] have b: "- (2 ^ 31) \<le> sint x + 1" "sint x + 1 < 2 ^ 31"
    by simp_all
  have "sint (x + 1) = signed_take_bit 31 (sint x + 1)"
    by (simp add: sint_word_add)
  also have "\<dots> = sint x + 1"
    using b by (rule signed_take_bit_int_eq_self)
  finally show ?thesis .
qed

lemma sint_decr:
  assumes "x \<noteq> INT_MIN"
  shows "sint (x - 1 :: c_int) = sint x - 1"
proof -
  have "sint x \<noteq> - 2147483648"
    using assms sint_inj [of x INT_MIN] by (auto simp: sint_INT_MIN)
  with sint_bounds [of x] have b: "- (2 ^ 31) \<le> sint x - 1" "sint x - 1 < 2 ^ 31"
    by simp_all
  have "sint (x - 1) = signed_take_bit 31 (sint x - 1)"
    by (simp add: sint_word_diff)
  also have "\<dots> = sint x - 1"
    using b by (rule signed_take_bit_int_eq_self)
  finally show ?thesis .
qed

lemma sint_small:
  assumes "uint (x::c_int) < 2147483648"
  shows "sint x = uint x"
proof -
  have "sint x = signed_take_bit 31 (uint x)"
    by (simp add: sint_uint)
  also have "\<dots> = uint x"
  proof (rule signed_take_bit_int_eq_self)
    have "(0::int) \<le> uint x" by simp
    then show "- (2 ^ 31) \<le> uint x"
      by (simp add: order_trans [of "- 2147483648" 0])
    show "uint x < 2 ^ 31" using assms by simp
  qed
  finally show ?thesis .
qed

lemma pos_sint_uint:
  assumes "0 \<le> sint (c::c_int)"
  shows "uint c = sint c"
proof -
  have "uint c = take_bit 32 (sint c)"
    by (simp add: uint_sint)
  also have "\<dots> = sint c"
    using assms sint_bounds [of c] by (intro take_bit_int_eq_self) simp_all
  finally show ?thesis .
qed


lemma smod_nonneg: "0 \<le> a \<Longrightarrow> 0 < b \<Longrightarrow> (a::int) smod b = a mod b"
  by (cases "a = 0") (simp_all add: smod_int_alt_def)


lemma incr_Inr: "incr x = Inr n \<Longrightarrow> sint n = sint x + 1 \<and> n = x + 1"
  by (auto simp: incr_def sint_incr split: if_splits)

lemma decr_Inr: "decr x = Inr n \<Longrightarrow> sint n = sint x - 1 \<and> n = x - 1"
  by (auto simp: decr_def sint_decr split: if_splits)

lemma incr_completes:
  assumes "sint x < 2147483647"
  shows "incr x = Inr (x + 1) \<and> sint (x + 1) = sint x + 1"
proof -
  from assms have "x \<noteq> INT_MAX" using sint_INT_MAX by auto
  then show ?thesis by (simp add: incr_def sint_incr)
qed

lemma decr_completes:
  assumes "- 2147483648 < sint x"
  shows "decr x = Inr (x - 1) \<and> sint (x - 1) = sint x - 1"
proof -
  from assms have "x \<noteq> INT_MIN" using sint_INT_MIN by auto
  then show ?thesis by (simp add: decr_def sint_decr)
qed

section \<open>The two index computations\<close>

lemma unsigned_index_eq:
  assumes c: "0 < sint c"
  shows "unsigned_index k c = Inr (uint k mod uint c)"
proof -
  have c0: "c \<noteq> 0" using c by auto
  have uc: "uint c = sint c" using c by (simp add: pos_sint_uint)
  have "uint (k mod c) < uint c"
    using c uc by (simp add: uint_mod)
  also have "\<dots> < 2147483648"
    using uc sint_bounds [of c] by simp
  finally have "sint (k mod c) = uint k mod uint c"
    by (simp add: sint_small uint_mod)
  then show ?thesis
    using c0 by (simp add: unsigned_index_def)
qed

lemma signed_index_eq:
  assumes c: "0 < sint c"
  shows "signed_index k c = Inr (sint k smod sint c)"
proof -
  have "c \<noteq> 0" "c \<noteq> - 1" using c by auto
  then show ?thesis by (simp add: signed_index_def)
qed

lemma unsigned_index_in_table:
  assumes "0 < sint c"
  shows "\<exists>i. unsigned_index k c = Inr i \<and> 0 \<le> i \<and> i < sint c"
proof -
  have "uint c = sint c" using assms by (simp add: pos_sint_uint)
  with assms unsigned_index_eq [OF assms, of k] show ?thesis by simp
qed

lemma signed_index_in_table:
  assumes "0 < sint c" "0 \<le> sint k"
  shows "\<exists>i. signed_index k c = Inr i \<and> 0 \<le> i \<and> i < sint c"
  using assms signed_index_eq [OF assms(1), of k] by (simp add: smod_nonneg)

lemma bucket_at_completes:
  "0 \<le> i \<Longrightarrow> i < int (length t) \<Longrightarrow> bucket_at t i = Inr (t ! nat i)"
  by (simp add: bucket_at_def)




section \<open>The loops on a chain\<close>

lemma get_loop_absent: "k \<notin> key ` set ch \<Longrightarrow> get_loop k ch = INT_MAX"
  by (induction ch) auto

text \<open>
  What the loop of put does depends on the entries before the last one only: the key of
  the last entry of the chain is never compared.
\<close>

lemma put_loop_append:
  "k \<notin> key ` set (butlast (e # rest)) \<Longrightarrow>
     put_loop k v e rest = (None, e # rest @ [\<lparr>key = k, val = v\<rparr>])"
  by (induction rest arbitrary: e) auto

lemma put_loop_overwrite:
  "k \<in> key ` set (butlast (e # rest)) \<Longrightarrow>
     \<exists>ch. put_loop k v e rest = (Some (get_loop k (e # rest)), ch) \<and>
          map key ch = map key (e # rest)"
proof (induction k v e rest rule: put_loop.induct)
  case (1 k v e)
  then show ?case by simp
next
  case (2 k v e n ns)
  show ?case
  proof (cases "key e = k")
    case True
    then show ?thesis by simp
  next
    case False
    with "2.prems" have "k \<in> key ` set (butlast (n # ns))" by auto
    with "2.IH" False obtain ch
      where "put_loop k v n ns = (Some (get_loop k (n # ns)), ch)"
        and "map key ch = map key (n # ns)"
      by blast
    with False show ?thesis by simp
  qed
qed

text \<open>The loop of del is right on a chain: it removes the first entry with the key.\<close>

lemma del_loop_absent: "k \<notin> key ` set ch \<Longrightarrow> del_loop k ch = None"
  by (induction ch) auto

lemma del_loop_present:
  "k \<in> key ` set ch \<Longrightarrow>
     \<exists>ch'. del_loop k ch = Some (get_loop k ch, ch') \<and> length ch = Suc (length ch')"
  by (induction ch) auto

lemma del_loop_subset:
  "del_loop k ch = Some (v, ch') \<Longrightarrow> set ch' \<subseteq> set ch"
  by (induction ch arbitrary: ch') (auto split: if_splits option.splits)

lemma del_loop_unique:
  "distinct (map key ch) \<Longrightarrow> del_loop k ch = Some (v, ch') \<Longrightarrow>
     k \<notin> key ` set ch' \<and> distinct (map key ch')"
proof (induction ch arbitrary: ch')
  case Nil
  then show ?case by simp
next
  case (Cons e es)
  show ?case
  proof (cases "key e = k")
    case True
    with Cons.prems show ?thesis by auto
  next
    case False
    with Cons.prems obtain es'
      where d: "del_loop k es = Some (v, es')" and c: "ch' = e # es'"
      by (auto split: option.splits)
    from Cons.prems have "distinct (map key es)" by simp
    from Cons.IH [OF this d] have ih: "k \<notin> key ` set es'" "distinct (map key es')"
      by simp_all
    from del_loop_subset [OF d] Cons.prems(1) have "key e \<notin> key ` set es'"
      by auto
    with ih False c show ?thesis by auto
  qed
qed

section \<open>What put does to a map\<close>

text \<open>
  A put that completes appends a new entry and counts it whenever the key does not occur
  before the last entry of its chain, and overwrites the first entry with the key
  otherwise. So a key held only by the last entry of a chain is stored a second time.
\<close>

lemma put_absent:
  assumes p: "put m k v = Inr (r, m')"
    and i: "unsigned_index k (capacity m) = Inr i"
    and a: "k \<notin> key ` set (table m ! nat i)"
  shows "r = INT_MAX \<and> sint (size_hm m') = sint (size_hm m) + 1 \<and>
         table m' = (table m)[nat i := table m ! nat i @ [\<lparr>key = k, val = v\<rparr>]]"
proof -
  from p i obtain n where n: "incr (numOps m) = Inr n"
    and b: "bucket_at (table m) i = Inr (table m ! nat i)"
    by (auto simp: put_def bucket_at_def split: sum.splits if_splits)
  show ?thesis
  proof (cases "table m ! nat i")
    case Nil
    with p i n b show ?thesis
      by (auto simp: put_def dest!: incr_Inr split: sum.splits)
  next
    case (Cons e rest)
    with a have "k \<notin> key ` set (butlast (e # rest))"
      by (auto dest: in_set_butlastD)
    then have "put_loop k v e rest = (None, e # rest @ [\<lparr>key = k, val = v\<rparr>])"
      by (rule put_loop_append)
    with p i n b Cons show ?thesis
      by (auto simp: put_def dest!: incr_Inr split: sum.splits)
  qed
qed

lemma put_present_before_last:
  assumes p: "put m k v = Inr (r, m')"
    and i: "unsigned_index k (capacity m) = Inr i"
    and a: "k \<in> key ` set (butlast (table m ! nat i))"
  shows "r = get_loop k (table m ! nat i) \<and> size_hm m' = size_hm m \<and>
         map key (table m' ! nat i) = map key (table m ! nat i)"
proof -
  from p i obtain n where n: "incr (numOps m) = Inr n"
    and b: "bucket_at (table m) i = Inr (table m ! nat i)"
    and l: "nat i < length (table m)"
    by (auto simp: put_def bucket_at_def split: sum.splits if_splits)
  from a obtain e rest where c: "table m ! nat i = e # rest"
    by (cases "table m ! nat i") auto
  from put_loop_overwrite [of k e rest v] a c obtain ch
    where ch: "put_loop k v e rest = (Some (get_loop k (e # rest)), ch)"
      and keys: "map key ch = map key (e # rest)"
    by auto
  with p i n b c l show ?thesis
    by (auto simp: put_def split: sum.splits)
qed

lemma put_present_only_last:
  assumes p: "put m k v = Inr (r, m')"
    and i: "unsigned_index k (capacity m) = Inr i"
    and a: "k \<notin> key ` set (butlast (table m ! nat i))"
    and ne: "table m ! nat i \<noteq> []"
  shows "r = INT_MAX \<and> sint (size_hm m') = sint (size_hm m) + 1 \<and>
         table m' = (table m)[nat i := table m ! nat i @ [\<lparr>key = k, val = v\<rparr>]]"
proof -
  from p i obtain n where n: "incr (numOps m) = Inr n"
    and b: "bucket_at (table m) i = Inr (table m ! nat i)"
    by (auto simp: put_def bucket_at_def split: sum.splits if_splits)
  from ne obtain e rest where c: "table m ! nat i = e # rest"
    by (cases "table m ! nat i") auto
  with a have "put_loop k v e rest = (None, e # rest @ [\<lparr>key = k, val = v\<rparr>])"
    by (simp add: put_loop_append)
  with p i n b c show ?thesis
    by (auto simp: put_def dest!: incr_Inr split: sum.splits)
qed

section \<open>The operation counter\<close>

lemma get_numOps:
  "get m k = Inr (r, m') \<Longrightarrow> sint (numOps m') = sint (numOps m) + 1"
  by (auto simp: get_def dest!: incr_Inr split: sum.splits)

lemma put_numOps:
  "put m k v = Inr (r, m') \<Longrightarrow> sint (numOps m') = sint (numOps m) + 1"
  by (auto simp: put_def dest!: incr_Inr
      split: sum.splits list.splits prod.splits option.splits)

lemma del_numOps:
  "del m k = Inr (r, m') \<Longrightarrow> sint (numOps m') = sint (numOps m) + 1"
  by (auto simp: del_def dest!: incr_Inr
      split: sum.splits list.splits prod.splits option.splits)

lemma step_numOps:
  "step m c = Inr (r, m') \<Longrightarrow> sint (numOps m') = sint (numOps m) + 1"
  by (cases c) (auto dest: get_numOps put_numOps del_numOps)

lemma run_numOps:
  "run m cs = Inr (rs, m') \<Longrightarrow>
     sint (numOps m') = sint (numOps m) + int (length cs) \<and> length rs = length cs"
proof (induction cs arbitrary: m rs)
  case Nil
  then show ?case by simp
next
  case (Cons c cs)
  from Cons.prems obtain r m1 rs'
    where s: "step m c = Inr (r, m1)"
      and r: "run m1 cs = Inr (rs', m')"
      and e: "rs = r # rs'"
    by (auto split: sum.splits)
  from step_numOps [OF s] Cons.IH [OF r] e show ?case by simp
qed

subsection \<open>Calls that complete\<close>

lemma get_completes:
  assumes "map_ok m" "0 \<le> sint k" "sint (numOps m) < 2147483647"
  shows "\<exists>r m'. get m k = Inr (r, m') \<and> map_ok m'"
proof -
  from assms(1) have c: "0 < sint (capacity m)"
    and l: "int (length (table m)) = sint (capacity m)"
    by (simp_all add: map_ok_def)
  from signed_index_in_table [OF c assms(2)] obtain i
    where i: "signed_index k (capacity m) = Inr i" "0 \<le> i" "i < sint (capacity m)"
    by blast
  note n = incr_completes [OF assms(3)]
  have b: "bucket_at (table m) i = Inr (table m ! nat i)"
    using i l by (simp add: bucket_at_completes)
  have "get m k = Inr (get_loop k (table m ! nat i), m\<lparr>numOps := numOps m + 1\<rparr>)"
    using n i b by (simp add: get_def)
  moreover have "map_ok (m\<lparr>numOps := numOps m + 1\<rparr>)"
    using assms(1) n by (simp add: map_ok_def)
  ultimately show ?thesis by blast
qed

lemma put_completes:
  assumes "map_ok m" "sint (numOps m) < 2147483647"
  shows "\<exists>r m'. put m k v = Inr (r, m') \<and> map_ok m'"
proof -
  from assms(1) have c: "0 < sint (capacity m)"
    and l: "int (length (table m)) = sint (capacity m)"
    and s1: "- sint (numOps m) \<le> sint (size_hm m)"
    and s2: "sint (size_hm m) \<le> sint (numOps m)"
    by (simp_all add: map_ok_def)
  from unsigned_index_in_table [OF c] obtain i
    where i: "unsigned_index k (capacity m) = Inr i" "0 \<le> i" "i < sint (capacity m)"
    by blast
  note n = incr_completes [OF assms(2)]
  have "sint (size_hm m) < 2147483647" using s2 assms(2) by simp
  note s = incr_completes [OF this]
  have b: "bucket_at (table m) i = Inr (table m ! nat i)"
    using i l by (simp add: bucket_at_completes)
  show ?thesis
    using n s i b assms(1) s1 s2
    by (auto simp: put_def map_ok_def split: list.splits prod.splits option.splits)
qed

lemma del_completes:
  assumes "map_ok m" "0 \<le> sint k" "sint (numOps m) < 2147483647"
  shows "\<exists>r m'. del m k = Inr (r, m') \<and> map_ok m'"
proof -
  from assms(1) have c: "0 < sint (capacity m)"
    and l: "int (length (table m)) = sint (capacity m)"
    and s1: "- sint (numOps m) \<le> sint (size_hm m)"
    and s2: "sint (size_hm m) \<le> sint (numOps m)"
    by (simp_all add: map_ok_def)
  from signed_index_in_table [OF c assms(2)] obtain i
    where i: "signed_index k (capacity m) = Inr i" "0 \<le> i" "i < sint (capacity m)"
    by blast
  note n = incr_completes [OF assms(3)]
  have "- 2147483648 < sint (size_hm m)" using s1 assms(3) by simp
  note s = decr_completes [OF this]
  have b: "bucket_at (table m) i = Inr (table m ! nat i)"
    using i l by (simp add: bucket_at_completes)
  show ?thesis
    using n s i b assms(1) s1 s2
    by (auto simp: del_def map_ok_def split: list.splits prod.splits option.splits)
qed

lemma step_completes:
  "map_ok m \<Longrightarrow> call_in_bounds c \<Longrightarrow> sint (numOps m) < 2147483647 \<Longrightarrow>
     \<exists>r m'. step m c = Inr (r, m') \<and> map_ok m'"
  by (cases c) (simp_all add: get_completes put_completes del_completes)

lemma run_completes:
  "map_ok m \<Longrightarrow> list_all call_in_bounds cs \<Longrightarrow>
   sint (numOps m) + int (length cs) \<le> 2147483647 \<Longrightarrow>
     \<exists>rs m'. run m cs = Inr (rs, m') \<and> map_ok m'"
proof (induction cs arbitrary: m)
  case Nil
  then show ?case by simp
next
  case (Cons c cs)
  from Cons.prems have "sint (numOps m) < 2147483647" by simp
  with Cons.prems step_completes [of m c] obtain r m1
    where s: "step m c = Inr (r, m1)" and ok: "map_ok m1" by auto
  from step_numOps [OF s] Cons.prems
  have "sint (numOps m1) + int (length cs) \<le> 2147483647" by simp
  with Cons.IH [OF ok] Cons.prems obtain rs m'
    where "run m1 cs = Inr (rs, m')" "map_ok m'" by auto
  with s show ?case by simp
qed

lemma initmap_ok: "0 < sint c \<Longrightarrow> map_ok (initmap c)"
  by (simp add: map_ok_def initmap_def)

text \<open>
  On a fresh map of positive capacity, up to \<open>2^31 - 1\<close> calls whose get and del keys
  are not negative all complete, and the counter then holds their number.
\<close>

lemma fresh_run_completes:
  assumes "0 < sint c" "list_all call_in_bounds cs" "length cs \<le> 2147483647"
  shows "\<exists>rs m'. run (initmap c) cs = Inr (rs, m') \<and> sint (numOps m') = int (length cs)"
proof -
  have "sint (numOps (initmap c)) + int (length cs) \<le> 2147483647"
    using assms(3) by (simp add: initmap_def)
  from run_completes [OF initmap_ok [OF assms(1)] assms(2) this] obtain rs m'
    where r: "run (initmap c) cs = Inr (rs, m')" by blast
  from run_numOps [OF r] r show ?thesis by (simp add: initmap_def)
qed

text \<open>
  C5. After any sequence of get, put and del calls on a freshly created map that all
  complete (no call runs into undefined behaviour), the operation counter equals the
  number of calls, hits and misses alike; every single completed call increments the
  counter by exactly one, so it never decreases.
\<close>

theorem numOps_counts_calls:
  "(run (initmap c) cs = Inr (rs, m') \<longrightarrow> sint (numOps m') = int (length cs)) \<and>
   (step m call = Inr (r, m1) \<longrightarrow> sint (numOps m1) = sint (numOps m) + 1)"
  using run_numOps [of "initmap c" cs rs m'] step_numOps [of m call r m1]
  by (simp add: initmap_def)

theorem numOps_counts_calls_witness:
  "run (initmap 4) [Put 1 10, Get 2, Del 3, Get 1] =
     Inr ([INT_MAX, INT_MAX, INT_MAX, 10],
          \<lparr>table = [[], [\<lparr>key = 1, val = 10\<rparr>], [], []],
             size_hm = 1, capacity = 4, numOps = 4\<rparr>) \<and>
   sint (numOps \<lparr>table = [[], [\<lparr>key = 1, val = 10\<rparr>], [], []],
                  size_hm = 1, capacity = 4, numOps = 4\<rparr>) =
     int (length [Put 1 10, Get 2, Del 3, Get 1]) \<and>
   step (initmap 4) (Get 2) =
     Inr (INT_MAX, \<lparr>table = [[], [], [], []], size_hm = 0, capacity = 4, numOps = 1\<rparr>) \<and>
   sint (numOps \<lparr>table = [[], [], [], []], size_hm = 0, capacity = 4, numOps = 1\<rparr>) =
     sint (numOps (initmap 4)) + 1"
proof -
  have r: "run (initmap 4) [Put 1 10, Get 2, Del 3, Get 1] =
     Inr ([INT_MAX, INT_MAX, INT_MAX, 10],
          \<lparr>table = [[], [\<lparr>key = 1, val = 10\<rparr>], [], []],
             size_hm = 1, capacity = 4, numOps = 4\<rparr>)"
    by code_simp
  have s: "step (initmap 4) (Get 2) =
     Inr (INT_MAX, \<lparr>table = [[], [], [], []], size_hm = 0, capacity = 4, numOps = 1\<rparr>)"
    by code_simp
  from r s numOps_counts_calls [of 4 "[Put 1 10, Get 2, Del 3, Get 1]"
      "[INT_MAX, INT_MAX, INT_MAX, 10]"
      "\<lparr>table = [[], [\<lparr>key = 1, val = 10\<rparr>], [], []],
         size_hm = 1, capacity = 4, numOps = 4\<rparr>"
      "initmap 4" "Get 2" INT_MAX
      "\<lparr>table = [[], [], [], []], size_hm = 0, capacity = 4, numOps = 1\<rparr>"]
  show ?thesis by blast
qed

section \<open>The bucket index\<close>



text \<open>
  C9. The claim: for a positive capacity and every key, negative keys included, the
  bucket index of get and del lies in \<open>[0, c)\<close>. In the source the remainder of a
  negative key is negative: at capacity 4 the key \<open>-1\<close> has index \<open>-1\<close>, and both get
  and del read \<^verbatim>\<open>table[-1]\<close>, outside the table. Only put converts the key to unsigned
  first.
\<close>

theorem negative_key_index_out_of_bounds:
  "signed_index (- 1) 4 = Inr (- 1) \<and>
   unsigned_index (- 1) 4 = Inr 3 \<and>
   get (initmap 4) (- 1) = Inl OutOfBounds \<and>
   del (initmap 4) (- 1) = Inl OutOfBounds"
  by code_simp

section \<open>get\<close>

text \<open>
  C7. A call of get that completes, hit or miss, leaves the table with all its entries,
  the size and the capacity as they were; the map afterwards is the map before with the
  operation counter incremented by one.
\<close>

theorem get_frame:
  "get m k = Inr (r, m') \<Longrightarrow>
     table m' = table m \<and> size_hm m' = size_hm m \<and> capacity m' = capacity m \<and>
     m' = m\<lparr>numOps := numOps m + 1\<rparr> \<and> sint (numOps m') = sint (numOps m) + 1"
  by (auto simp: get_def dest!: incr_Inr split: sum.splits)

theorem get_frame_witness:
  "get \<lparr>table = [[], [\<lparr>key = 1, val = 10\<rparr>], [], []],
         size_hm = 1, capacity = 4, numOps = 1\<rparr> 1 =
     Inr (10, \<lparr>table = [[], [\<lparr>key = 1, val = 10\<rparr>], [], []],
                size_hm = 1, capacity = 4, numOps = 2\<rparr>) \<and>
   get \<lparr>table = [[], [\<lparr>key = 1, val = 10\<rparr>], [], []],
         size_hm = 1, capacity = 4, numOps = 1\<rparr> 2 =
     Inr (INT_MAX, \<lparr>table = [[], [\<lparr>key = 1, val = 10\<rparr>], [], []],
                     size_hm = 1, capacity = 4, numOps = 2\<rparr>) \<and>
   \<lparr>table = [[], [\<lparr>key = 1, val = 10\<rparr>], [], []],
     size_hm = 1, capacity = 4, numOps = (2::c_int)\<rparr> =
   \<lparr>table = [[], [\<lparr>key = 1, val = 10\<rparr>], [], []],
     size_hm = 1, capacity = 4, numOps = (1::c_int)\<rparr>
     \<lparr>numOps := numOps \<lparr>table = [[], [\<lparr>key = 1, val = 10\<rparr>], [], []],
                          size_hm = 1, capacity = 4, numOps = (1::c_int)\<rparr> + 1\<rparr>"
proof -
  have hit: "get \<lparr>table = [[], [\<lparr>key = 1, val = 10\<rparr>], [], []],
         size_hm = 1, capacity = 4, numOps = 1\<rparr> 1 =
     Inr (10, \<lparr>table = [[], [\<lparr>key = 1, val = 10\<rparr>], [], []],
                size_hm = 1, capacity = 4, numOps = 2\<rparr>)"
    by code_simp
  have miss: "get \<lparr>table = [[], [\<lparr>key = 1, val = 10\<rparr>], [], []],
         size_hm = 1, capacity = 4, numOps = 1\<rparr> 2 =
     Inr (INT_MAX, \<lparr>table = [[], [\<lparr>key = 1, val = 10\<rparr>], [], []],
                     size_hm = 1, capacity = 4, numOps = 2\<rparr>)"
    by code_simp
  from hit miss get_frame [OF hit] get_frame [OF miss] show ?thesis by blast
qed

section \<open>put\<close>

text \<open>
  C1. The claim: a put on a key that the map already holds overwrites the value in
  place, returns the prior value and leaves the size unchanged; the first put on a key
  returns \<^verbatim>\<open>INT_MAX\<close> (no prior value) and adds one to the size. The source overwrites
  only an entry that is not the last of its chain. On a fresh map of capacity 4,
  \<^verbatim>\<open>put(1, 10)\<close> makes a chain of one entry; \<^verbatim>\<open>put(1, 20)\<close> then skips the loop, links
  a second entry with key 1 behind the first, returns \<^verbatim>\<open>INT_MAX\<close> and the size is 2.
\<close>

theorem put_same_key_twice_appends:
  "run (initmap 4) [Put 1 10, Put 1 20] =
     Inr ([INT_MAX, INT_MAX],
          \<lparr>table = [[], [\<lparr>key = 1, val = 10\<rparr>, \<lparr>key = 1, val = 20\<rparr>], [], []],
             size_hm = 2, capacity = 4, numOps = 2\<rparr>)"
  by code_simp

text \<open>
  C2. The claim: after any sequence of calls no bucket chain holds two entries with
  equal keys. In the source the two calls \<^verbatim>\<open>put(1, 10)\<close>, \<^verbatim>\<open>put(1, 20)\<close> on a fresh map of
  capacity 4 leave bucket 1 with two entries of key 1.
\<close>

theorem put_breaks_unique_keys:
  "unique_keys (initmap 4) \<and>
   map (map key) (table (snd (projr (run (initmap 4) [Put 1 10, Put 1 20])))) =
     [[], [1, 1], [], []] \<and>
   \<not> unique_keys (snd (projr (run (initmap 4) [Put 1 10, Put 1 20])))"
  by code_simp

text \<open>
  C3. The claim: on any map, \<^verbatim>\<open>put(k, v)\<close> followed by \<^verbatim>\<open>get(k)\<close> returns \<open>v\<close>. In the
  source, after \<^verbatim>\<open>put(1, 10)\<close> on a fresh map of capacity 4, \<^verbatim>\<open>put(1, 20)\<close> followed by
  \<^verbatim>\<open>get(1)\<close> returns 10: get finds the older entry first. With a negative key the two
  calls do not even look at the same bucket: at capacity 3, \<^verbatim>\<open>put(-3, 7)\<close> stores in
  bucket 1 and \<^verbatim>\<open>get(-3)\<close> searches bucket 0 and returns \<^verbatim>\<open>INT_MAX\<close>.
\<close>

theorem put_then_get_returns_old_value:
  "run (initmap 4) [Put 1 10, Put 1 20, Get 1] =
     Inr ([INT_MAX, INT_MAX, 10],
          \<lparr>table = [[], [\<lparr>key = 1, val = 10\<rparr>, \<lparr>key = 1, val = 20\<rparr>], [], []],
             size_hm = 2, capacity = 4, numOps = 3\<rparr>) \<and>
   run (initmap 3) [Put (- 3) 7, Get (- 3)] =
     Inr ([INT_MAX, INT_MAX],
          \<lparr>table = [[], [\<lparr>key = - 3, val = 7\<rparr>], []],
             size_hm = 1, capacity = 3, numOps = 2\<rparr>)"
  by code_simp

text \<open>
  C10. The claim: for every key, \<^verbatim>\<open>put(k, INT_MAX)\<close> stores the value and a following
  \<^verbatim>\<open>get(k)\<close> returns \<^verbatim>\<open>INT_MAX\<close>, the value get also returns for an absent key. In the
  source, after \<^verbatim>\<open>put(1, 10)\<close> on a fresh map of capacity 4, \<^verbatim>\<open>put(1, INT_MAX)\<close> links a
  second entry behind the first and \<^verbatim>\<open>get(1)\<close> returns 10.
\<close>

theorem put_INT_MAX_then_get_returns_old_value:
  "run (initmap 4) [Put 1 10, Put 1 INT_MAX, Get 1] =
     Inr ([INT_MAX, INT_MAX, 10],
          \<lparr>table = [[], [\<lparr>key = 1, val = 10\<rparr>, \<lparr>key = 1, val = INT_MAX\<rparr>], [], []],
             size_hm = 2, capacity = 4, numOps = 3\<rparr>)"
  by code_simp

section \<open>del\<close>

text \<open>
  C6. The claim: del on a map that holds an entry \<open>(k, v)\<close> returns \<open>v\<close>, takes one off
  the size, and a following \<^verbatim>\<open>get(k)\<close> finds nothing; del of an absent key returns
  \<^verbatim>\<open>INT_MAX\<close> and changes neither size nor table. In the source, after \<^verbatim>\<open>put(1, 10)\<close>
  and \<^verbatim>\<open>put(1, 20)\<close> on a fresh map of capacity 4 the map holds the entry \<open>(1, 20)\<close>;
  \<^verbatim>\<open>del(1)\<close> returns 10, and the following \<^verbatim>\<open>get(1)\<close> returns 20.
\<close>

theorem del_leaves_duplicate:
  "run (initmap 4) [Put 1 10, Put 1 20, Del 1, Get 1] =
     Inr ([INT_MAX, INT_MAX, 10, 20],
          \<lparr>table = [[], [\<lparr>key = 1, val = 20\<rparr>], [], []],
             size_hm = 1, capacity = 4, numOps = 4\<rparr>)"
  by code_simp

section \<open>The scenario at capacity 4\<close>

text \<open>
  C8. On a fresh map of capacity 4 the calls \<^verbatim>\<open>put(1,10)\<close>, \<^verbatim>\<open>put(5,20)\<close>, \<^verbatim>\<open>get(1)\<close>,
  \<^verbatim>\<open>get(5)\<close>, \<^verbatim>\<open>del(1)\<close>, \<^verbatim>\<open>get(1)\<close> return, in order, \<^verbatim>\<open>INT_MAX\<close> (not found),
  \<^verbatim>\<open>INT_MAX\<close>, 10, 20, 10 and \<^verbatim>\<open>INT_MAX\<close>; afterwards the size is 1 and the operation
  counter is 6, one for each of the six calls.
\<close>

theorem scenario_capacity_4:
  "run (initmap 4) [Put 1 10, Put 5 20, Get 1, Get 5, Del 1, Get 1] =
     Inr ([INT_MAX, INT_MAX, 10, 20, 10, INT_MAX],
          \<lparr>table = [[], [\<lparr>key = 5, val = 20\<rparr>], [], []],
             size_hm = 1, capacity = 4, numOps = 6\<rparr>)"
  by code_simp

text \<open>The same scenario does not end with an operation counter of 5.\<close>

theorem scenario_numOps_not_5:
  "\<not> (fst (projr (run (initmap 4) [Put 1 10, Put 5 20, Get 1, Get 5, Del 1, Get 1])) =
        [INT_MAX, INT_MAX, 10, 20, 10, INT_MAX] \<and>
      size_hm (snd (projr (run (initmap 4)
        [Put 1 10, Put 5 20, Get 1, Get 5, Del 1, Get 1]))) = 1 \<and>
      numOps (snd (projr (run (initmap 4)
        [Put 1 10, Put 5 20, Get 1, Get 5, Del 1, Get 1]))) = 5)"
  by code_simp

end
